theory Spec2Isabelle
  imports Complex_Main
begin

section \<open>The point-charge engine of EMField\_Simulation.py\<close>

text \<open>
  The class \<open>Charges\<close> keeps two numpy arrays: \<open>self._q\<close>, the magnitudes (shape
  \<open>(n,)\<close>), and \<open>self._pos\<close>, the positions (shape \<open>(n, 2)\<close>). The numbers stored
  are modelled as reals, a row of the position array as a pair of reals.

  \<open>get_charges\<close> hands out rows \<open>p[k, :]\<close> of the position array, which numpy returns as
  views of that array, and \<open>set_position\<close> writes into the array in place. The position
  arrays therefore live in an explicit store, addressed by their index in it; \<open>self._pos\<close>
  is an address. \<open>np.vstack\<close> and \<open>np.delete\<close> build a new array, which the model
  allocates at the end of the store. The magnitude array is only ever replaced as a
  whole (\<open>np.hstack\<close>, \<open>np.delete\<close>) and iterating it yields scalars, so it is kept as
  a value.
\<close>

type_synonym point = "real \<times> real"

datatype error = ValueError | ZeroDivisionError | OverflowError

record charges =
  store :: "point list list"
  self_q :: "real list"
  self_pos :: nat

text \<open>A view \<open>p[k, :]\<close>: the address of the array and the row.\<close>

type_synonym view = "nat \<times> nat"

definition read_view :: "point list list \<Rightarrow> view \<Rightarrow> point" where
  "read_view st v = st ! fst v ! snd v"

text \<open>The array \<open>self._pos\<close> refers to.\<close>

definition pos_array :: "charges \<Rightarrow> point list" where
  "pos_array c = store c ! self_pos c"

text \<open>\<open>Charges.__init__\<close>: two arrays without rows.\<close>

definition Charges_init :: charges where
  "Charges_init = \<lparr>store = [[]], self_q = [], self_pos = 0\<rparr>"

text \<open>\<open>np.delete(arr, k)\<close> along the first axis, for an index \<open>0 \<le> k\<close> below the length.\<close>

definition np_delete :: "'a list \<Rightarrow> nat \<Rightarrow> 'a list" where
  "np_delete xs k = take k xs @ drop (Suc k) xs"

definition add_charge :: "charges \<Rightarrow> real \<Rightarrow> point \<Rightarrow> charges" where
  "add_charge c qv xy =
     c\<lparr>store := store c @ [pos_array c @ [xy]],
       self_q := self_q c @ [qv],
       self_pos := length (store c)\<rparr>"

definition delete_charge :: "charges \<Rightarrow> int \<Rightarrow> charges" where
  "delete_charge c k =
     (if k \<ge> 0 \<and> k < int (length (self_q c))
      then c\<lparr>store := store c @ [np_delete (pos_array c) (nat k)],
             self_q := np_delete (self_q c) (nat k),
             self_pos := length (store c)\<rparr>
      else c)"

definition set_position :: "charges \<Rightarrow> int \<Rightarrow> point \<Rightarrow> charges" where
  "set_position c k xy =
     (if k \<ge> 0 \<and> k < int (length (self_q c))
      then c\<lparr>store := (store c)[self_pos c := (pos_array c)[nat k := xy]]\<rparr>
      else c)"

definition get_charges :: "charges \<Rightarrow> (real \<times> view) list" where
  "get_charges c = map (\<lambda>(k, qv). (qv, (self_pos c, k))) (enumerate 0 (self_q c))"

text \<open>What a list returned by \<open>get_charges\<close> shows when it is read in a given store.\<close>

definition read_snapshot :: "point list list \<Rightarrow> (real \<times> view) list \<Rightarrow> (real \<times> point) list" where
  "read_snapshot st snap = map (\<lambda>(qv, v). (qv, read_view st v)) snap"

text \<open>
  The class invariant: \<open>self._pos\<close> is an allocated array with as many rows as
  \<open>self._q\<close> has entries. It holds after \<open>__init__\<close> and every method keeps it, so the
  index and broadcasting checks numpy makes between the two arrays cannot fail and have
  no branch in the model.
\<close>

definition shape_inv :: "charges \<Rightarrow> bool" where
  "shape_inv c \<longleftrightarrow> self_pos c < length (store c) \<and> length (pos_array c) = length (self_q c)"

text \<open>The sequence of charges the object holds: magnitude and position by index.\<close>

definition charges_of :: "charges \<Rightarrow> (real \<times> point) list" where
  "charges_of c = zip (self_q c) (pos_array c)"

subsection \<open>Nearest charge\<close>

text \<open>
  \<open>get_closest\<close> computes in double precision: the differences, squares and sums numpy
  forms are rounded and overflow to \<open>inf\<close> without raising, and \<open>limit**2\<close>, on a Python
  float, raises OverflowError when the square is out of range. Double arithmetic is the
  platform's and is a parameter of the model: \<open>'f\<close> is the type of the values computed,
  the operations take the stored numbers to it.
\<close>

record 'f double_ops =
  np_subtract :: "real \<Rightarrow> real \<Rightarrow> 'f"
  np_square :: "'f \<Rightarrow> 'f"
  np_add :: "'f \<Rightarrow> 'f \<Rightarrow> 'f"
  np_less :: "'f \<Rightarrow> 'f \<Rightarrow> bool"
  py_square :: "real \<Rightarrow> 'f option"

text \<open>
  \<open>np.argmin\<close>: the index of the first occurrence of the minimum; it raises ValueError
  on an empty array. The scan carries the best value, its index and the current index.
  (The entries are sums of two squares of differences of finite numbers, so none is nan.)
\<close>

fun argmin_scan :: "('f \<Rightarrow> 'f \<Rightarrow> bool) \<Rightarrow> 'f \<Rightarrow> nat \<Rightarrow> nat \<Rightarrow> 'f list \<Rightarrow> nat" where
  "argmin_scan lt b bi i [] = bi"
| "argmin_scan lt b bi i (x # xs) =
     (if lt x b then argmin_scan lt x i (Suc i) xs
      else argmin_scan lt b bi (Suc i) xs)"

definition np_argmin :: "('f \<Rightarrow> 'f \<Rightarrow> bool) \<Rightarrow> 'f list \<Rightarrow> error + nat" where
  "np_argmin lt d =
     (case d of [] \<Rightarrow> Inl ValueError | x # xs \<Rightarrow> Inr (argmin_scan lt x 0 1 xs))"

text \<open>
  \<open>r = xy - self._pos\<close>, broadcast over the rows, \<open>d = np.sum(r**2, axis=1)\<close>, then
  \<open>np.argmin(d)\<close> and, after it, the test \<open>d[qidx] < limit**2\<close>.
\<close>

definition get_closest ::
  "'f double_ops \<Rightarrow> charges \<Rightarrow> point \<Rightarrow> real \<Rightarrow> error + nat option" where
  "get_closest ops c xy limit =
     (let r = map (\<lambda>p. (np_subtract ops (fst xy) (fst p), np_subtract ops (snd xy) (snd p)))
                (pos_array c);
          d = map (\<lambda>v. np_add ops (np_square ops (fst v)) (np_square ops (snd v))) r
      in case np_argmin (np_less ops) d of
           Inl e \<Rightarrow> Inl e
         | Inr qidx \<Rightarrow>
             (case py_square ops limit of
                None \<Rightarrow> Inl OverflowError
              | Some l2 \<Rightarrow> if np_less ops (d ! qidx) l2 then Inr (Some qidx) else Inr None))"

subsection \<open>The scaled field\<close>

text \<open>\<open>r = xy - self._pos\<close>, broadcast over the rows, and \<open>np.sum(r**2, axis=1)\<close>.\<close>

definition rel_vectors :: "point \<Rightarrow> point list \<Rightarrow> point list" where
  "rel_vectors xy ps = map (\<lambda>p. (fst xy - fst p, snd xy - snd p)) ps"

definition row_sq_sums :: "point list \<Rightarrow> real list" where
  "row_sq_sums r = map (\<lambda>v. (fst v)\<^sup>2 + (snd v)\<^sup>2) r"

text \<open>
  Where the query point lies on a charge, \<open>dsq\<close> has a zero entry and numpy divides by
  it without raising: the row of \<open>eunit\<close> is \<open>0/0\<close>, so both components of the result are
  nan. That result is \<open>None\<close> here. The second argument is the integrator's parameter,
  which the method ignores. The arithmetic of this definition is exact: it gives the
  value the formula has, not the rounding, overflow or underflow of the doubles.
\<close>

definition scaled_electric_field :: "charges \<Rightarrow> point \<Rightarrow> real \<Rightarrow> point option" where
  "scaled_electric_field c xy t =
     (let r = rel_vectors xy (pos_array c);
          dsq = row_sq_sums r
      in if 0 \<in> set dsq then None
         else
           let emag = map2 (\<lambda>qv d. qv / d) (self_q c) dsq;
               eunit = map2 (\<lambda>v d. (fst v / sqrt d, snd v / sqrt d)) r dsq;
               e = map2 (\<lambda>m u. (m * fst u, m * snd u)) emag eunit;
               etot = (sum_list (map fst e), sum_list (map snd e));
               s = (fst etot)\<^sup>2 + (snd etot)\<^sup>2
           in Some (fst etot / (s + 1 / 10000), snd etot / (s + 1 / 10000)))"

subsection \<open>Field lines\<close>

text \<open>
  \<open>np.linspace(start, stop, num)\<close> with the end point included: ValueError for a negative
  \<open>num\<close>, no sample for 0, \<open>start\<close> alone for 1, otherwise \<open>start + i * step\<close> with the last
  sample set to \<open>stop\<close>.
\<close>

definition np_linspace :: "real \<Rightarrow> real \<Rightarrow> int \<Rightarrow> error + real list" where
  "np_linspace start stop num =
     (if num < 0 then Inl ValueError
      else if num = 0 then Inr []
      else if num = 1 then Inr [start]
      else let step = (stop - start) / real_of_int (num - 1);
               y = map (\<lambda>i. start + real i * step) [0..<nat num]
           in Inr (y[nat num - 1 := stop]))"

text \<open>
  \<open>scipy.integrate.odeint\<close> is a parameter of the model: it takes the derivative
  function, the start point and the parameter samples and returns one row per sample.
\<close>

type_synonym integrator = "(point \<Rightarrow> real \<Rightarrow> point option) \<Rightarrow> point \<Rightarrow> real list \<Rightarrow> point list"

text \<open>The inner loop \<open>for i in angles\<close>, appending one line per angle.\<close>

fun angle_loop ::
  "integrator \<Rightarrow> charges \<Rightarrow> real \<Rightarrow> real list \<Rightarrow> point \<Rightarrow> real list \<Rightarrow>
   point list list \<Rightarrow> point list list" where
  "angle_loop odeint c start_radius lambdas xy [] fieldlines = fieldlines"
| "angle_loop odeint c start_radius lambdas xy (i # angles) fieldlines =
     (let dx = start_radius * cos i;
          dy = start_radius * sin i;
          lines = odeint (scaled_electric_field c) (fst xy + dx, snd xy + dy) lambdas
      in angle_loop odeint c start_radius lambdas xy angles (fieldlines @ [lines]))"

text \<open>The outer loop \<open>for q, xy in self.get_charges()\<close>.\<close>

fun charge_loop ::
  "integrator \<Rightarrow> charges \<Rightarrow> real \<Rightarrow> real list \<Rightarrow> real list \<Rightarrow> (real \<times> view) list \<Rightarrow>
   point list list \<Rightarrow> point list list" where
  "charge_loop odeint c start_radius lambdas angles [] fieldlines = fieldlines"
| "charge_loop odeint c start_radius lambdas angles ((qv, v) # rest) fieldlines =
     charge_loop odeint c start_radius lambdas angles rest
       (if qv > 0
        then angle_loop odeint c start_radius lambdas (read_view (store c) v) angles fieldlines
        else fieldlines)"

definition field_lines ::
  "integrator \<Rightarrow> charges \<Rightarrow> int \<Rightarrow> real \<Rightarrow> real \<Rightarrow> int \<Rightarrow> error + point list list" where
  "field_lines odeint c nr_of_fieldlines start_radius lambda_max points =
     (if nr_of_fieldlines = 0 then Inl ZeroDivisionError
      else
        (let ang_scale = (2 * pi) / real_of_int nr_of_fieldlines
         in (case np_linspace ang_scale (2 * pi) nr_of_fieldlines of
               Inl e \<Rightarrow> Inl e
             | Inr ls \<Rightarrow>
                 (let angles = map (\<lambda>a. a + pi / real_of_int nr_of_fieldlines) ls
                  in (case np_linspace 0 lambda_max points of
                        Inl e \<Rightarrow> Inl e
                      | Inr lambdas \<Rightarrow>
                          Inr (charge_loop odeint c start_radius lambdas angles
                                 (get_charges c) []))))))"

text \<open>
  The contract of \<open>odeint\<close> the claims on single lines rely on: one row per parameter
  sample, the first row being the start point.
\<close>

definition odeint_contract :: "integrator \<Rightarrow> bool" where
  "odeint_contract odeint \<longleftrightarrow>
     (\<forall>f y0 ts. length (odeint f y0 ts) = length ts \<and> (ts \<noteq> [] \<longrightarrow> hd (odeint f y0 ts) = y0))"

text \<open>The positions of the charges lines start from, in index order.\<close>

definition sources :: "charges \<Rightarrow> point list" where
  "sources c = map snd (filter (\<lambda>x. fst x > 0) (charges_of c))"

text \<open>The start point of a line at angle \<open>a\<close> around \<open>xy\<close>.\<close>

definition seed :: "point \<Rightarrow> real \<Rightarrow> real \<Rightarrow> point" where
  "seed xy start_radius a = (fst xy + start_radius * cos a, snd xy + start_radius * sin a)"

subsection \<open>Sequences of mutations and example configurations\<close>

text \<open>The three mutating methods as data, to speak about what happens after a call.\<close>

datatype mutation = Add real point | Remove int | SetPosition int point

fun apply_mutation :: "charges \<Rightarrow> mutation \<Rightarrow> charges" where
  "apply_mutation c (Add qv xy) = add_charge c qv xy"
| "apply_mutation c (Remove k) = delete_charge c k"
| "apply_mutation c (SetPosition k xy) = set_position c k xy"

text \<open>
  A call that replaces the position array of \<open>c\<close>: \<open>add_charge\<close>, and \<open>delete_charge\<close>
  with an index in range. The other calls leave \<open>self._pos\<close> bound to the same array.
\<close>

fun replaces_array :: "charges \<Rightarrow> mutation \<Rightarrow> bool" where
  "replaces_array c (Add qv xy) = True"
| "replaces_array c (Remove k) = (k \<ge> 0 \<and> k < int (length (self_q c)))"
| "replaces_array c (SetPosition k xy) = False"

text \<open>A call that writes into the position array of \<open>c\<close>: \<open>set_position\<close> in range.\<close>

fun writes_row :: "charges \<Rightarrow> mutation \<Rightarrow> bool" where
  "writes_row c (SetPosition k xy) = (k \<ge> 0 \<and> k < int (length (self_q c)))"
| "writes_row c m = False"

text \<open>The calls of a sequence that come before the first replacement of the array.\<close>

definition in_place_prefix :: "charges \<Rightarrow> mutation list \<Rightarrow> mutation list" where
  "in_place_prefix c ms = takeWhile (\<lambda>m. \<not> replaces_array c m) ms"

definition example_one :: charges where
  "example_one = add_charge Charges_init 1 (0, 0)"

definition example_three :: charges where
  "example_three =
     add_charge (add_charge (add_charge Charges_init 1 (1, 0)) 2 (0, 1)) (- 1) (3, 4)"

section \<open>The invariant\<close>

lemma inv_init: "shape_inv Charges_init"
  by (simp add: shape_inv_def Charges_init_def pos_array_def)

lemma inv_add_charge: "shape_inv c \<Longrightarrow> shape_inv (add_charge c qv xy)"
  by (simp add: shape_inv_def add_charge_def pos_array_def)

lemma inv_delete_charge: "shape_inv c \<Longrightarrow> shape_inv (delete_charge c k)"
  by (auto simp add: shape_inv_def delete_charge_def pos_array_def np_delete_def)

lemma inv_set_position: "shape_inv c \<Longrightarrow> shape_inv (set_position c k xy)"
  by (auto simp add: shape_inv_def set_position_def pos_array_def)

lemma charges_of_add_charge:
  "shape_inv c \<Longrightarrow> charges_of (add_charge c qv xy) = charges_of c @ [(qv, xy)]"
  by (simp add: shape_inv_def charges_of_def add_charge_def pos_array_def)

lemma np_delete_zip:
  "length xs = length ys \<Longrightarrow>
   np_delete (zip xs ys) k = zip (np_delete xs k) (np_delete ys k)"
  by (simp add: np_delete_def take_zip drop_zip)

lemma charges_of_delete_charge:
  "shape_inv c \<Longrightarrow> 0 \<le> k \<Longrightarrow> k < int (length (self_q c)) \<Longrightarrow>
   charges_of (delete_charge c k) = np_delete (charges_of c) (nat k)"
  by (simp add: shape_inv_def charges_of_def delete_charge_def pos_array_def np_delete_zip)

lemma length_np_delete: "k < length xs \<Longrightarrow> length (np_delete xs k) = length xs - 1"
  by (simp add: np_delete_def)

lemma nth_np_delete_before: "i < k \<Longrightarrow> k < length xs \<Longrightarrow> np_delete xs k ! i = xs ! i"
  by (simp add: np_delete_def nth_append)

lemma nth_np_delete_after:
  "k \<le> i \<Longrightarrow> Suc i < length xs \<Longrightarrow> np_delete xs k ! i = xs ! Suc i"
  by (simp add: np_delete_def nth_append min_def)

lemma length_charges_of: "shape_inv c \<Longrightarrow> length (charges_of c) = length (self_q c)"
  by (simp add: charges_of_def shape_inv_def)

lemma charges_of_set_position:
  "shape_inv c \<Longrightarrow> 0 \<le> k \<Longrightarrow> k < int (length (self_q c)) \<Longrightarrow>
   charges_of (set_position c k xy) = (charges_of c)[nat k := (self_q c ! nat k, xy)]"
  by (simp add: shape_inv_def charges_of_def set_position_def pos_array_def update_zip)

lemma inv_example_one: "shape_inv example_one"
  by (simp add: example_one_def inv_add_charge inv_init)

lemma charges_of_init: "charges_of Charges_init = []"
  by (simp add: charges_of_def Charges_init_def)

lemma charges_of_example_one: "charges_of example_one = [(1, (0, 0))]"
  by (simp add: example_one_def charges_of_add_charge inv_init charges_of_init)

lemma inv_example_three: "shape_inv example_three"
  by (simp add: example_three_def inv_add_charge inv_init)

lemma charges_of_example_three:
  "charges_of example_three = [(1, (1, 0)), (2, (0, 1)), (- 1, (3, 4))]"
  by (simp add: example_three_def charges_of_add_charge inv_add_charge inv_init charges_of_init)

lemma length_q_example_one: "length (self_q example_one) = 1"
  using length_charges_of [OF inv_example_one] by (simp add: charges_of_example_one)

lemma length_q_example_three: "length (self_q example_three) = 3"
  using length_charges_of [OF inv_example_three] by (simp add: charges_of_example_three)

section \<open>Removing a charge\<close>

text \<open>
  Claim C6. For a charge set of size \<open>s\<close>, \<open>delete_charge k\<close> with \<open>0 \<le> k < s\<close> removes
  exactly the charge at index \<open>k\<close>: the size becomes \<open>s - 1\<close>, every charge at an index below
  \<open>k\<close> stays where it is and every charge at an index \<open>i\<close> above \<open>k\<close> moves to \<open>i - 1\<close>. For
  every other \<open>k\<close> the call returns the object unchanged.
\<close>

theorem delete_charge_shifts:
  assumes "shape_inv c"
  shows "(0 \<le> k \<and> k < int (length (charges_of c)) \<longrightarrow>
            charges_of (delete_charge c k) = np_delete (charges_of c) (nat k)
          \<and> length (charges_of (delete_charge c k)) = length (charges_of c) - 1
          \<and> (\<forall>i. i < nat k \<longrightarrow> charges_of (delete_charge c k) ! i = charges_of c ! i)
          \<and> (\<forall>i. nat k < i \<and> i < length (charges_of c) \<longrightarrow>
                 charges_of (delete_charge c k) ! (i - 1) = charges_of c ! i))
       \<and> (\<not> (0 \<le> k \<and> k < int (length (charges_of c))) \<longrightarrow> delete_charge c k = c)"
proof (intro conjI impI allI)
  assume k: "0 \<le> k \<and> k < int (length (charges_of c))"
  then have kq: "0 \<le> k" "k < int (length (self_q c))"
    using assms by (simp_all add: length_charges_of)
  show eq: "charges_of (delete_charge c k) = np_delete (charges_of c) (nat k)"
    using assms kq by (rule charges_of_delete_charge)
  have kn: "nat k < length (charges_of c)" using k by linarith
  show "length (charges_of (delete_charge c k)) = length (charges_of c) - 1"
    using eq kn by (simp add: length_np_delete)
  show "charges_of (delete_charge c k) ! i = charges_of c ! i" if "i < nat k" for i
    using eq kn that by (simp add: nth_np_delete_before)
  show "charges_of (delete_charge c k) ! (i - 1) = charges_of c ! i"
    if "nat k < i \<and> i < length (charges_of c)" for i
  proof -
    have "nat k \<le> i - 1" "Suc (i - 1) < length (charges_of c)" "Suc (i - 1) = i"
      using that by linarith+
    then show ?thesis
      using eq nth_np_delete_after [of "nat k" "i - 1" "charges_of c"] by simp
  qed
next
  assume "\<not> (0 \<le> k \<and> k < int (length (charges_of c)))"
  then show "delete_charge c k = c"
    using assms by (auto simp add: delete_charge_def length_charges_of)
qed

theorem delete_charge_shifts_witness:
  "charges_of (delete_charge example_three 1) = [(1, (1, 0)), (- 1, (3, 4))]
   \<and> delete_charge example_three 3 = example_three
   \<and> delete_charge example_three (- 1) = example_three"
  using delete_charge_shifts [OF inv_example_three, of 1]
        delete_charge_shifts [OF inv_example_three, of 3]
        delete_charge_shifts [OF inv_example_three, of "- 1"]
  by (simp add: charges_of_example_three np_delete_def)

section \<open>Moving a charge\<close>

text \<open>
  Claim C7. For a charge set of size \<open>s\<close>, \<open>set_position k p\<close> with \<open>0 \<le> k < s\<close> overwrites
  only the position of charge \<open>k\<close> with \<open>p\<close>: all magnitudes, the size and every other
  charge stay as they are. For every other \<open>k\<close> the call returns the object unchanged.
\<close>

theorem set_position_frame:
  assumes "shape_inv c"
  shows "(0 \<le> k \<and> k < int (length (charges_of c)) \<longrightarrow>
            charges_of (set_position c k p)
              = (charges_of c)[nat k := (fst (charges_of c ! nat k), p)]
          \<and> map fst (charges_of (set_position c k p)) = map fst (charges_of c)
          \<and> snd (charges_of (set_position c k p) ! nat k) = p
          \<and> (\<forall>i. i < length (charges_of c) \<and> i \<noteq> nat k \<longrightarrow>
                 charges_of (set_position c k p) ! i = charges_of c ! i))
       \<and> (\<not> (0 \<le> k \<and> k < int (length (charges_of c))) \<longrightarrow> set_position c k p = c)"
proof (intro conjI impI allI)
  assume k: "0 \<le> k \<and> k < int (length (charges_of c))"
  then have kq: "0 \<le> k" "k < int (length (self_q c))"
    using assms by (simp_all add: length_charges_of)
  have kn: "nat k < length (charges_of c)" using k by linarith
  have q: "fst (charges_of c ! nat k) = self_q c ! nat k"
    using kn by (simp add: charges_of_def)
  show eq: "charges_of (set_position c k p)
              = (charges_of c)[nat k := (fst (charges_of c ! nat k), p)]"
    using charges_of_set_position [OF assms kq, of p] q by simp
  show "map fst (charges_of (set_position c k p)) = map fst (charges_of c)"
    using eq kn by (simp add: map_update list_update_same_conv)
  show "snd (charges_of (set_position c k p) ! nat k) = p"
    using eq kn by simp
  show "charges_of (set_position c k p) ! i = charges_of c ! i"
    if "i < length (charges_of c) \<and> i \<noteq> nat k" for i
    using eq that by simp
next
  assume "\<not> (0 \<le> k \<and> k < int (length (charges_of c)))"
  then show "set_position c k p = c"
    using assms by (auto simp add: set_position_def length_charges_of)
qed

theorem set_position_frame_witness:
  "charges_of (set_position example_three 1 (7, 8)) = [(1, (1, 0)), (2, (7, 8)), (- 1, (3, 4))]
   \<and> set_position example_three 3 (7, 8) = example_three
   \<and> set_position example_three (- 1) (7, 8) = example_three"
  using set_position_frame [OF inv_example_three, of 1 "(7, 8)"]
        set_position_frame [OF inv_example_three, of 3 "(7, 8)"]
        set_position_frame [OF inv_example_three, of "- 1" "(7, 8)"]
  by (simp add: charges_of_example_three)

section \<open>Indices across a removal\<close>

text \<open>
  Claim C9. For a charge set of size \<open>s\<close> and an index \<open>k\<close> with \<open>0 \<le> k < s - 1\<close>, removing
  charge \<open>k\<close> and adding a charge with the same magnitude and position again gives a set
  of size \<open>s\<close> whose new charge sits at index \<open>s - 1\<close>, which is not \<open>k\<close>; index \<open>k\<close> now holds
  the charge that was at \<open>k + 1\<close>.
\<close>

theorem readd_goes_last:
  assumes "shape_inv c" and "0 \<le> k" and "k < int (length (charges_of c)) - 1"
  shows "length (charges_of (add_charge (delete_charge c k)
                    (fst (charges_of c ! nat k)) (snd (charges_of c ! nat k))))
           = length (charges_of c)
       \<and> charges_of (add_charge (delete_charge c k)
                    (fst (charges_of c ! nat k)) (snd (charges_of c ! nat k)))
           ! (length (charges_of c) - 1) = charges_of c ! nat k
       \<and> length (charges_of c) - 1 \<noteq> nat k
       \<and> charges_of (add_charge (delete_charge c k)
                    (fst (charges_of c ! nat k)) (snd (charges_of c ! nat k)))
           ! nat k = charges_of c ! (nat k + 1)"
proof -
  let ?x = "charges_of c ! nat k"
  let ?c' = "add_charge (delete_charge c k) (fst ?x) (snd ?x)"
  have kq: "k < int (length (self_q c))"
    using assms by (simp add: length_charges_of)
  have kn: "Suc (nat k) < length (charges_of c)" using assms by linarith
  have del: "charges_of (delete_charge c k) = np_delete (charges_of c) (nat k)"
    using assms(1,2) kq by (rule charges_of_delete_charge)
  have eq: "charges_of ?c' = np_delete (charges_of c) (nat k) @ [?x]"
    using charges_of_add_charge [OF inv_delete_charge [OF assms(1)], of k "fst ?x" "snd ?x"] del
    by simp
  have len: "length (np_delete (charges_of c) (nat k)) = length (charges_of c) - 1"
    using kn by (simp add: length_np_delete)
  have 1: "length (charges_of ?c') = length (charges_of c)"
    using eq len kn by simp
  have 2: "charges_of ?c' ! (length (charges_of c) - 1) = ?x"
    using eq len by (simp add: nth_append)
  have 3: "length (charges_of c) - 1 \<noteq> nat k" using kn by linarith
  have "nat k < length (np_delete (charges_of c) (nat k))"
    using len kn by linarith
  then have "charges_of ?c' ! nat k = np_delete (charges_of c) (nat k) ! nat k"
    using eq by (simp add: nth_append)
  then have 4: "charges_of ?c' ! nat k = charges_of c ! (nat k + 1)"
    using nth_np_delete_after [of "nat k" "nat k" "charges_of c"] kn by simp
  show ?thesis using 1 2 3 4 by blast
qed

theorem readd_goes_last_witness:
  "charges_of (add_charge (delete_charge example_three 0) 1 (1, 0))
     = [(2, (0, 1)), (- 1, (3, 4)), (1, (1, 0))]
   \<and> charges_of (add_charge (delete_charge example_three 0) 1 (1, 0)) ! 2
       = charges_of example_three ! 0"
proof -
  have "charges_of (add_charge (delete_charge example_three 0) 1 (1, 0))
          = [(2, (0, 1)), (- 1, (3, 4)), (1, (1, 0))]"
    using charges_of_delete_charge [OF inv_example_three, of 0]
          charges_of_add_charge [OF inv_delete_charge [OF inv_example_three], of 0 1 "(1, 0)"]
    by (simp add: charges_of_example_three np_delete_def length_q_example_three)
  then show ?thesis
    using readd_goes_last [OF inv_example_three, of 0]
    by (simp add: charges_of_example_three)
qed

section \<open>Snapshots are views\<close>

lemma read_snapshot_now:
  assumes "shape_inv c"
  shows "read_snapshot (store c) (get_charges c) = charges_of c"
proof (rule nth_equalityI)
  show "length (read_snapshot (store c) (get_charges c)) = length (charges_of c)"
    using assms by (simp add: read_snapshot_def get_charges_def charges_of_def shape_inv_def)
next
  fix i assume "i < length (read_snapshot (store c) (get_charges c))"
  then have i: "i < length (self_q c)"
    by (simp add: read_snapshot_def get_charges_def)
  then show "read_snapshot (store c) (get_charges c) ! i = charges_of c ! i"
    using assms
    by (simp add: read_snapshot_def get_charges_def charges_of_def shape_inv_def nth_enumerate_eq
        read_view_def pos_array_def)
qed

lemma read_snapshot_cong:
  assumes "st' ! self_pos c = st ! self_pos c"
  shows "read_snapshot st' (get_charges c) = read_snapshot st (get_charges c)"
  using assms by (simp add: read_snapshot_def get_charges_def read_view_def split_def)

lemma replaces_array_same_size:
  "self_q c' = self_q c \<Longrightarrow> replaces_array c' m = replaces_array c m"
  by (cases m) simp_all

lemma in_place_step:
  assumes "shape_inv c" and "\<not> replaces_array c m"
  shows "self_pos (apply_mutation c m) = self_pos c
       \<and> self_q (apply_mutation c m) = self_q c
       \<and> shape_inv (apply_mutation c m)"
proof (cases m)
  case (Add qv xy)
  then show ?thesis using assms(2) by simp
next
  case (Remove k)
  then show ?thesis using assms by (auto simp add: delete_charge_def)
next
  case (SetPosition k xy)
  then show ?thesis
    using inv_set_position [OF assms(1), of k xy] by (simp add: set_position_def)
qed

lemma in_place_run:
  assumes "shape_inv c" and "\<forall>m \<in> set ms. \<not> replaces_array c m"
  shows "self_pos (foldl apply_mutation c ms) = self_pos c
       \<and> self_q (foldl apply_mutation c ms) = self_q c
       \<and> shape_inv (foldl apply_mutation c ms)"
  using assms
proof (induction ms arbitrary: c)
  case Nil
  then show ?case by simp
next
  case (Cons m ms)
  have m: "\<not> replaces_array c m" using Cons.prems(2) by simp
  note step = in_place_step [OF Cons.prems(1) m]
  have "\<forall>m' \<in> set ms. \<not> replaces_array (apply_mutation c m) m'"
    using Cons.prems(2) step replaces_array_same_size [of "apply_mutation c m" c] by simp
  then show ?case using Cons.IH [of "apply_mutation c m"] step by simp
qed

lemma idle_step:
  "\<not> replaces_array c m \<Longrightarrow> \<not> writes_row c m \<Longrightarrow> apply_mutation c m = c"
  by (cases m) (auto simp add: delete_charge_def set_position_def)

lemma idle_run:
  "\<forall>m \<in> set ms. \<not> replaces_array c m \<and> \<not> writes_row c m \<Longrightarrow>
   foldl apply_mutation c ms = c"
  by (induction ms) (simp_all add: idle_step)

lemma old_array_step:
  assumes "shape_inv c" and "a < self_pos c"
  shows "store (apply_mutation c m) ! a = store c ! a
       \<and> a < self_pos (apply_mutation c m)
       \<and> shape_inv (apply_mutation c m)"
proof (cases m)
  case (Add qv xy)
  then show ?thesis
    using assms inv_add_charge [OF assms(1), of qv xy]
    by (simp add: add_charge_def shape_inv_def nth_append)
next
  case (Remove k)
  then show ?thesis
    using assms inv_delete_charge [OF assms(1), of k]
    by (simp add: delete_charge_def shape_inv_def nth_append)
next
  case (SetPosition k xy)
  then show ?thesis
    using assms inv_set_position [OF assms(1), of k xy]
    by (simp add: set_position_def)
qed

lemma old_array_run:
  assumes "shape_inv c" and "a < self_pos c"
  shows "store (foldl apply_mutation c ms) ! a = store c ! a"
  using assms
proof (induction ms arbitrary: c)
  case Nil
  then show ?case by simp
next
  case (Cons m ms)
  note step = old_array_step [OF Cons.prems, of m]
  then show ?case using Cons.IH [of "apply_mutation c m"] by simp
qed

lemma replacement_step:
  assumes "shape_inv c" and "replaces_array c m"
  shows "store (apply_mutation c m) ! self_pos c = store c ! self_pos c
       \<and> self_pos c < self_pos (apply_mutation c m)
       \<and> shape_inv (apply_mutation c m)"
proof (cases m)
  case (Add qv xy)
  then show ?thesis
    using assms(1) inv_add_charge [OF assms(1), of qv xy]
    by (simp add: add_charge_def shape_inv_def nth_append)
next
  case (Remove k)
  then show ?thesis
    using assms inv_delete_charge [OF assms(1), of k]
    by (simp add: delete_charge_def shape_inv_def nth_append)
next
  case (SetPosition k xy)
  then show ?thesis using assms(2) by simp
qed

lemma snapshot_after_run:
  assumes "shape_inv c"
  shows "read_snapshot (store (foldl apply_mutation c ms)) (get_charges c)
           = charges_of (foldl apply_mutation c (in_place_prefix c ms))"
proof -
  let ?pre = "in_place_prefix c ms"
  let ?rest = "dropWhile (\<lambda>m. \<not> replaces_array c m) ms"
  let ?c1 = "foldl apply_mutation c ?pre"
  have split: "ms = ?pre @ ?rest" by (simp add: in_place_prefix_def)
  have "\<forall>m \<in> set ?pre. \<not> replaces_array c m"
    unfolding in_place_prefix_def using set_takeWhileD by fastforce
  then have c1: "self_pos ?c1 = self_pos c" "self_q ?c1 = self_q c" "shape_inv ?c1"
    using in_place_run [OF assms] by simp_all
  have same: "get_charges ?c1 = get_charges c"
    using c1 by (simp add: get_charges_def)
  have run: "foldl apply_mutation c ms = foldl apply_mutation ?c1 ?rest"
    using split foldl_append [of apply_mutation c ?pre ?rest] by simp
  have kept: "store (foldl apply_mutation ?c1 ?rest) ! self_pos ?c1 = store ?c1 ! self_pos ?c1"
  proof (cases ?rest)
    case Nil
    show ?thesis unfolding Nil by simp
  next
    case (Cons m rest')
    have "replaces_array c m"
      using Cons hd_dropWhile [of "\<lambda>m. \<not> replaces_array c m" ms] by fastforce
    then have "replaces_array ?c1 m"
      using replaces_array_same_size [OF c1(2)] by simp
    then have step: "store (apply_mutation ?c1 m) ! self_pos ?c1 = store ?c1 ! self_pos ?c1"
      "self_pos ?c1 < self_pos (apply_mutation ?c1 m)" "shape_inv (apply_mutation ?c1 m)"
      using replacement_step [OF c1(3)] by simp_all
    have "store (foldl apply_mutation (apply_mutation ?c1 m) rest') ! self_pos ?c1
            = store (apply_mutation ?c1 m) ! self_pos ?c1"
      using old_array_run [OF step(3) step(2)] by simp
    then show ?thesis using step(1) Cons by simp
  qed
  have "read_snapshot (store (foldl apply_mutation ?c1 ?rest)) (get_charges ?c1)
          = read_snapshot (store ?c1) (get_charges ?c1)"
    using kept by (rule read_snapshot_cong)
  then show ?thesis
    using read_snapshot_now [OF c1(3)] same run by simp
qed

text \<open>
  Claim C8, as the code has it. \<open>get_charges\<close> returns the magnitudes and positions as
  they are at the call. The positions of the list it returned are views of the position
  array, so the list is not a copy: after any later sequence of calls it shows the charges
  as they were just before the first call that replaced the array (\<open>add_charge\<close>, or
  \<open>delete_charge\<close> in range), with the magnitudes of the call time. Nothing from that
  replacement on alters it, and it is unaltered altogether unless a \<open>set_position\<close> in
  range comes before the first replacement.
\<close>

theorem get_charges_views:
  assumes "shape_inv c"
  shows "read_snapshot (store c) (get_charges c) = charges_of c
       \<and> read_snapshot (store (foldl apply_mutation c ms)) (get_charges c)
           = charges_of (foldl apply_mutation c (in_place_prefix c ms))
       \<and> map fst (read_snapshot (store (foldl apply_mutation c ms)) (get_charges c))
           = map fst (charges_of c)
       \<and> ((\<forall>m \<in> set (in_place_prefix c ms). \<not> writes_row c m) \<longrightarrow>
            read_snapshot (store (foldl apply_mutation c ms)) (get_charges c) = charges_of c)
       \<and> (0 \<le> k \<and> k < int (length (charges_of c)) \<longrightarrow>
            read_snapshot (store (set_position c k xy)) (get_charges c)
              = (charges_of c)[nat k := (fst (charges_of c ! nat k), xy)])"
proof (intro conjI impI)
  let ?pre = "in_place_prefix c ms"
  let ?c1 = "foldl apply_mutation c ?pre"
  show "read_snapshot (store c) (get_charges c) = charges_of c"
    using assms by (rule read_snapshot_now)
  show run: "read_snapshot (store (foldl apply_mutation c ms)) (get_charges c) = charges_of ?c1"
    using assms by (rule snapshot_after_run)
  have pre: "\<forall>m \<in> set ?pre. \<not> replaces_array c m"
    unfolding in_place_prefix_def using set_takeWhileD by fastforce
  then have c1: "self_q ?c1 = self_q c" "shape_inv ?c1"
    using in_place_run [OF assms] by simp_all
  have "map fst (charges_of ?c1) = self_q ?c1"
    using c1(2) by (simp add: charges_of_def shape_inv_def)
  moreover have "map fst (charges_of c) = self_q c"
    using assms by (simp add: charges_of_def shape_inv_def)
  ultimately show "map fst (read_snapshot (store (foldl apply_mutation c ms)) (get_charges c))
                     = map fst (charges_of c)"
    using run c1(1) by simp
  show "read_snapshot (store (foldl apply_mutation c ms)) (get_charges c) = charges_of c"
    if idle: "\<forall>m \<in> set ?pre. \<not> writes_row c m"
  proof -
    have "?c1 = c" using idle_run [of ?pre c] pre idle by simp
    then show ?thesis using run by simp
  qed
  show "read_snapshot (store (set_position c k xy)) (get_charges c)
          = (charges_of c)[nat k := (fst (charges_of c ! nat k), xy)]"
    if k: "0 \<le> k \<and> k < int (length (charges_of c))"
  proof -
    have kq: "0 \<le> k" "k < int (length (self_q c))"
      using assms k by (simp_all add: length_charges_of)
    have kn: "nat k < length (charges_of c)" using k by linarith
    have q: "fst (charges_of c ! nat k) = self_q c ! nat k"
      using kn by (simp add: charges_of_def)
    have "in_place_prefix c [SetPosition k xy] = [SetPosition k xy]"
      by (simp add: in_place_prefix_def)
    then have "read_snapshot (store (set_position c k xy)) (get_charges c)
                 = charges_of (set_position c k xy)"
      using snapshot_after_run [OF assms, of "[SetPosition k xy]"] by simp
    then show ?thesis
      using charges_of_set_position [OF assms kq, of xy] q by simp
  qed
qed

theorem get_charges_views_witness:
  "read_snapshot (store example_one) (get_charges example_one) = [(1, (0, 0))]
   \<and> read_snapshot
        (store (foldl apply_mutation example_one
                  [Add 2 (3, 4), SetPosition 0 (7, 7), Remove 0]))
        (get_charges example_one) = [(1, (0, 0))]
   \<and> read_snapshot
        (store (foldl apply_mutation example_one
                  [SetPosition 5 (9, 9), Remove 1, Add 2 (3, 4), SetPosition 0 (7, 7)]))
        (get_charges example_one) = [(1, (0, 0))]
   \<and> read_snapshot
        (store (foldl apply_mutation example_one
                  [Remove 1, SetPosition 0 (5, 5), Add 2 (3, 4), SetPosition 0 (7, 7)]))
        (get_charges example_one) = [(1, (5, 5))]
   \<and> read_snapshot (store (set_position example_one 0 (5, 5))) (get_charges example_one)
        = [(1, (5, 5))]"
proof -
  note th = get_charges_views [OF inv_example_one]
  have idle: "set_position example_one 5 (9, 9) = example_one"
    "delete_charge example_one 1 = example_one"
    by (simp_all add: set_position_def delete_charge_def length_q_example_one)
  have 1: "read_snapshot (store example_one) (get_charges example_one) = [(1, (0, 0))]"
    using th [of "[]" 0 "(0, 0)"] by (simp add: charges_of_example_one)
  have 2: "read_snapshot
             (store (foldl apply_mutation example_one
                       [Add 2 (3, 4), SetPosition 0 (7, 7), Remove 0]))
             (get_charges example_one) = [(1, (0, 0))]"
    using th [of "[Add 2 (3, 4), SetPosition 0 (7, 7), Remove 0]" 0 "(0, 0)"]
    by (simp add: in_place_prefix_def charges_of_example_one)
  have 3: "read_snapshot
             (store (foldl apply_mutation example_one
                       [SetPosition 5 (9, 9), Remove 1, Add 2 (3, 4), SetPosition 0 (7, 7)]))
             (get_charges example_one) = [(1, (0, 0))]"
    using th [of "[SetPosition 5 (9, 9), Remove 1, Add 2 (3, 4), SetPosition 0 (7, 7)]"
                 0 "(0, 0)"]
    by (simp add: in_place_prefix_def charges_of_example_one length_q_example_one idle)
  have q: "self_q example_one = [1]"
    by (simp add: example_one_def add_charge_def Charges_init_def)
  have "charges_of (set_position (delete_charge example_one 1) 0 (5, 5)) = [(1, (5, 5))]"
    using charges_of_set_position [OF inv_example_one, of 0 "(5, 5)"]
    by (simp add: idle q charges_of_example_one)
  then have 4: "read_snapshot
             (store (foldl apply_mutation example_one
                       [Remove 1, SetPosition 0 (5, 5), Add 2 (3, 4), SetPosition 0 (7, 7)]))
             (get_charges example_one) = [(1, (5, 5))]"
    using th [of "[Remove 1, SetPosition 0 (5, 5), Add 2 (3, 4), SetPosition 0 (7, 7)]"
                 0 "(0, 0)"]
    by (simp add: in_place_prefix_def length_q_example_one)
  have 5: "read_snapshot (store (set_position example_one 0 (5, 5))) (get_charges example_one)
             = [(1, (5, 5))]"
    using th [of "[]" 0 "(5, 5)"] by (simp add: charges_of_example_one)
  show ?thesis using 1 2 3 4 5 by simp
qed

theorem get_charges_alias_counterexample:
  "read_snapshot (store (set_position example_one 0 (5, 5))) (get_charges example_one)
     \<noteq> read_snapshot (store example_one) (get_charges example_one)"
  by (simp add: example_one_def add_charge_def Charges_init_def set_position_def
      get_charges_def read_snapshot_def read_view_def pos_array_def enumerate_eq_zip)

section \<open>The empty configuration\<close>

text \<open>
  Claim C10. On a charge set without charges, \<open>scaled_electric_field\<close> returns the zero
  vector at every query point.
\<close>

theorem scaled_field_empty:
  assumes "shape_inv c" and "charges_of c = []"
  shows "scaled_electric_field c xy t = Some (0, 0)"
proof -
  have "length (self_q c) = 0"
    using length_charges_of [OF assms(1)] assms(2) by simp
  then have "self_q c = []" "pos_array c = []"
    using assms(1) by (simp_all add: shape_inv_def)
  then show ?thesis
    by (simp add: scaled_electric_field_def rel_vectors_def row_sq_sums_def)
qed

theorem scaled_field_empty_witness:
  "scaled_electric_field Charges_init (3, 4) 0 = Some (0, 0)
   \<and> scaled_electric_field (delete_charge example_one 0) (3, 4) 0 = Some (0, 0)"
proof -
  have "charges_of (delete_charge example_one 0) = []"
    using charges_of_delete_charge [OF inv_example_one, of 0]
    by (simp add: charges_of_example_one np_delete_def length_q_example_one)
  then show ?thesis
    using scaled_field_empty [OF inv_init charges_of_init, of "(3, 4)" 0]
          scaled_field_empty [OF inv_delete_charge [OF inv_example_one], of 0 "(3, 4)" 0]
    by simp
qed

section \<open>The scaled field in exact arithmetic\<close>

lemma scale_bound:
  fixes ex ey :: real
  shows "sqrt ((ex / (ex\<^sup>2 + ey\<^sup>2 + 1 / 10000))\<^sup>2 + (ey / (ex\<^sup>2 + ey\<^sup>2 + 1 / 10000))\<^sup>2) \<le> 50"
proof -
  define s where "s = ex\<^sup>2 + ey\<^sup>2"
  define u where "u = sqrt s"
  have s0: "0 \<le> s" by (simp add: s_def)
  have u0: "0 \<le> u" and us: "u\<^sup>2 = s" using s0 by (simp_all add: u_def)
  have pos: "0 < s + 1 / 10000" using s0 by simp
  have "(ex / (s + 1 / 10000))\<^sup>2 + (ey / (s + 1 / 10000))\<^sup>2 = s / (s + 1 / 10000)\<^sup>2"
    by (simp add: s_def power_divide add_divide_distrib)
  then have "sqrt ((ex / (s + 1 / 10000))\<^sup>2 + (ey / (s + 1 / 10000))\<^sup>2) = u / (s + 1 / 10000)"
    using pos by (simp add: real_sqrt_divide u_def)
  moreover have "u / (s + 1 / 10000) \<le> 50"
  proof -
    have "0 \<le> 50 * (u - 1 / 100)\<^sup>2" by simp
    then have "u \<le> 50 * (u\<^sup>2 + 1 / 10000)" by (simp add: power2_eq_square algebra_simps)
    then show ?thesis using pos us by (simp add: pos_divide_le_eq)
  qed
  ultimately show ?thesis by (simp add: s_def)
qed

text \<open>
  Away from every charge the formula gives a vector of norm at most
  \<open>1 / (2 * sqrt 0.0001) = 50\<close>. This is the bound of exact arithmetic only: in double
  precision \<open>r**2\<close> underflows to zero at a point close to a charge but not on it, and
  the method then returns nan there as it does on the charge itself.
\<close>

lemma scaled_field_real_bound:
  assumes "0 \<notin> set (row_sq_sums (rel_vectors xy (pos_array c)))"
  shows "\<exists>v. scaled_electric_field c xy t = Some v \<and> sqrt ((fst v)\<^sup>2 + (snd v)\<^sup>2) \<le> 50"
  using assms by (simp add: scaled_electric_field_def Let_def scale_bound)

section \<open>The nearest charge on an empty set\<close>

text \<open>
  Claim C5 asks that no operation raises, \<open>get_closest\<close> on a set without charges
  included. There \<open>np.argmin\<close> is applied to an empty array and raises ValueError,
  whatever the arithmetic.
\<close>

theorem get_closest_empty_raises:
  "get_closest ops Charges_init (0, 0) (1 / 10) = Inl ValueError"
  by (simp add: get_closest_def Charges_init_def pos_array_def np_argmin_def)

text \<open>
  Claim C3 asks \<open>get_closest\<close> to return \<open>None\<close> whenever it returns no index, for every
  charge set, point and radius. On every charge set without charges it raises ValueError
  instead, for every point and every radius: \<open>np.argmin\<close> fails before the radius is
  looked at.
\<close>

theorem get_closest_no_charges_raises:
  assumes "shape_inv c" and "charges_of c = []"
  shows "get_closest ops c xy limit = Inl ValueError"
proof -
  have "length (self_q c) = 0"
    using length_charges_of [OF assms(1)] assms(2) by simp
  then have "pos_array c = []"
    using assms(1) by (simp add: shape_inv_def)
  then show ?thesis by (simp add: get_closest_def np_argmin_def)
qed

theorem get_closest_no_charges_raises_witness:
  "get_closest
     \<lparr>np_subtract = (\<lambda>a b. a - b), np_square = (\<lambda>a. a * a), np_add = (\<lambda>a b. a + b),
      np_less = (\<lambda>a b. a < b), py_square = (\<lambda>a. Some (a * a))\<rparr>
     (delete_charge example_one 0) (3, 4) 10 = Inl ValueError"
proof -
  have "charges_of (delete_charge example_one 0) = []"
    using charges_of_delete_charge [OF inv_example_one, of 0]
    by (simp add: charges_of_example_one np_delete_def length_q_example_one)
  then show ?thesis
    using get_closest_no_charges_raises [OF inv_delete_charge [OF inv_example_one], of 0]
    by simp
qed

section \<open>Field lines\<close>

lemma angle_loop_eq:
  "angle_loop od c r lam xy angles acc
     = acc @ map (\<lambda>a. od (scaled_electric_field c) (seed xy r a) lam) angles"
  by (induction angles arbitrary: acc) (simp_all add: seed_def)

lemma charge_loop_eq:
  "charge_loop od c r lam angles snap acc
     = acc @ concat (map (\<lambda>xy. map (\<lambda>a. od (scaled_electric_field c) (seed xy r a) lam) angles)
                      (map snd (filter (\<lambda>x. fst x > 0) (read_snapshot (store c) snap))))"
proof (induction snap arbitrary: acc)
  case Nil
  then show ?case by (simp add: read_snapshot_def)
next
  case (Cons x snap)
  obtain qv v where x: "x = (qv, v)" by (cases x)
  show ?case
    using Cons.IH by (simp add: x read_snapshot_def angle_loop_eq)
qed

lemma np_linspace_length:
  assumes "0 \<le> num"
  shows "\<exists>ys. np_linspace a b num = Inr ys \<and> length ys = nat num"
  using assms by (simp add: np_linspace_def Let_def)

lemma np_linspace_nth:
  assumes "1 < num" and "i < nat num"
  shows "\<exists>ys. np_linspace a b num = Inr ys
           \<and> ys ! i = a + real i * ((b - a) / real_of_int (num - 1))"
proof (cases "i = nat num - 1")
  case True
  have n: "real_of_int (num - 1) \<noteq> 0" using assms(1) by simp
  have "real i = real_of_int (num - 1)" using True assms by simp
  then have "a + real i * ((b - a) / real_of_int (num - 1)) = b"
    using n by simp
  then show ?thesis
    using assms True by (simp add: np_linspace_def Let_def)
next
  case False
  then show ?thesis
    using assms by (simp add: np_linspace_def Let_def)
qed

lemma angles_closed_form:
  assumes "0 < n" and "i < nat n"
  shows "\<exists>ls. np_linspace (2 * pi / real_of_int n) (2 * pi) n = Inr ls \<and> length ls = nat n
           \<and> ls ! i + pi / real_of_int n = (2 * real (i + 1) + 1) * pi / real_of_int n"
proof (cases "n = 1")
  case True
  then have "i = 0" using assms by simp
  then show ?thesis using True by (simp add: np_linspace_def)
next
  case False
  then have n: "1 < n" using assms by simp
  obtain ls where ls: "np_linspace (2 * pi / real_of_int n) (2 * pi) n = Inr ls"
    "ls ! i = 2 * pi / real_of_int n
              + real i * ((2 * pi - 2 * pi / real_of_int n) / real_of_int (n - 1))"
    using np_linspace_nth [OF n assms(2)] by blast
  have len: "length ls = nat n"
    using np_linspace_length [of n "2 * pi / real_of_int n" "2 * pi"] ls(1) assms(1) by simp
  have n0: "real_of_int n \<noteq> 0" "real_of_int n - 1 \<noteq> 0" using n by simp_all
  have "(2 * pi - 2 * pi / real_of_int n) / real_of_int (n - 1) = 2 * pi / real_of_int n"
    using n0 by (simp add: field_simps)
  then have "ls ! i = 2 * pi / real_of_int n + real i * (2 * pi / real_of_int n)"
    using ls(2) by simp
  then have "ls ! i + pi / real_of_int n = (2 * real (i + 1) + 1) * pi / real_of_int n"
    by (simp add: algebra_simps add_divide_distrib)
  then show ?thesis using ls(1) len by simp
qed

lemma length_concat_uniform:
  "\<forall>l \<in> set ls. length l = n \<Longrightarrow> length (concat ls) = n * length ls"
  by (induction ls) simp_all

lemma nth_concat_uniform:
  "\<forall>l \<in> set ls. length l = n \<Longrightarrow> j < length ls \<Longrightarrow> i < n \<Longrightarrow>
   concat ls ! (j * n + i) = ls ! j ! i"
proof (induction ls arbitrary: j)
  case Nil
  then show ?case by simp
next
  case (Cons l ls)
  show ?case
  proof (cases j)
    case 0
    then show ?thesis using Cons.prems by (simp add: nth_append)
  next
    case (Suc j')
    have "concat (l # ls) ! (j * n + i) = concat ls ! (j' * n + i)"
      using Cons.prems Suc by (simp add: nth_append)
    then show ?thesis using Cons.IH [of j'] Cons.prems Suc by simp
  qed
qed

lemma field_lines_eq:
  assumes "shape_inv c" and "np_linspace (2 * pi / real_of_int n) (2 * pi) n = Inr ls"
    and "np_linspace 0 lambda_max points = Inr lambdas" and "n \<noteq> 0"
  shows "field_lines od c n r lambda_max points
           = Inr (concat (map (\<lambda>xy. map (\<lambda>a. od (scaled_electric_field c) (seed xy r a) lambdas)
                                   (map (\<lambda>a. a + pi / real_of_int n) ls))
                           (sources c)))"
  using assms
  by (simp add: field_lines_def charge_loop_eq sources_def read_snapshot_now)


lemma angles_list:
  assumes "0 < n"
  shows "\<exists>ls. np_linspace (2 * pi / real_of_int n) (2 * pi) n = Inr ls
           \<and> map (\<lambda>a. a + pi / real_of_int n) ls
               = map (\<lambda>i. (2 * real (i + 1) + 1) * pi / real_of_int n) [0..<nat n]"
proof -
  obtain ls where ls: "np_linspace (2 * pi / real_of_int n) (2 * pi) n = Inr ls"
    "length ls = nat n"
    using np_linspace_length [of n] assms by fastforce
  have "map (\<lambda>a. a + pi / real_of_int n) ls
          = map (\<lambda>i. (2 * real (i + 1) + 1) * pi / real_of_int n) [0..<nat n]"
  proof (rule nth_equalityI)
    show "length (map (\<lambda>a. a + pi / real_of_int n) ls)
            = length (map (\<lambda>i. (2 * real (i + 1) + 1) * pi / real_of_int n) [0..<nat n])"
      using ls(2) by simp
  next
    fix i assume "i < length (map (\<lambda>a. a + pi / real_of_int n) ls)"
    then have i: "i < nat n" using ls(2) by simp
    then show "map (\<lambda>a. a + pi / real_of_int n) ls ! i
                 = map (\<lambda>i. (2 * real (i + 1) + 1) * pi / real_of_int n) [0..<nat n] ! i"
      using angles_closed_form [OF assms i] ls by simp
  qed
  then show ?thesis using ls(1) by simp
qed

lemma field_lines_structure:
  assumes "shape_inv c" and "0 < n" and "0 \<le> points"
  shows "\<exists>lambdas. np_linspace 0 lambda_max points = Inr lambdas \<and> length lambdas = nat points
           \<and> field_lines od c n r lambda_max points
               = Inr (concat (map (\<lambda>xy. map (\<lambda>i. od (scaled_electric_field c)
                                  (seed xy r ((2 * real (i + 1) + 1) * pi / real_of_int n)) lambdas)
                                [0..<nat n])
                        (sources c)))"
proof -
  obtain lambdas where lam: "np_linspace 0 lambda_max points = Inr lambdas"
    "length lambdas = nat points"
    using np_linspace_length [OF assms(3)] by blast
  obtain ls where ls: "np_linspace (2 * pi / real_of_int n) (2 * pi) n = Inr ls"
    "map (\<lambda>a. a + pi / real_of_int n) ls
       = map (\<lambda>i. (2 * real (i + 1) + 1) * pi / real_of_int n) [0..<nat n]"
    using angles_list [OF assms(2)] by blast
  have "n \<noteq> 0" using assms(2) by simp
  then have "field_lines od c n r lambda_max points
           = Inr (concat (map (\<lambda>xy. map (\<lambda>a. od (scaled_electric_field c) (seed xy r a) lambdas)
                                   (map (\<lambda>a. a + pi / real_of_int n) ls))
                           (sources c)))"
    using field_lines_eq [OF assms(1) ls(1) lam(1)] by simp
  then show ?thesis using lam ls(2) by (simp add: comp_def)
qed

text \<open>
  Claim C1. For every charge set and every positive \<open>nr_of_fieldlines = n\<close> (and a point
  count that is not negative), \<open>field_lines\<close> returns \<open>n\<close> lines for each charge with a
  magnitude above zero and none for the others. The lines come in the order of the
  charges: line \<open>j * n + i\<close> is the one integrated from the \<open>j\<close>-th positive charge at
  the \<open>i\<close>-th angle, \<open>(2 (i + 1) + 1) \<pi> / n\<close>.
\<close>

theorem field_lines_count_order:
  assumes "shape_inv c" and "0 < n" and "0 \<le> points"
  shows "\<exists>lines lambdas. field_lines od c n r lambda_max points = Inr lines
           \<and> np_linspace 0 lambda_max points = Inr lambdas
           \<and> length lines = nat n * length (filter (\<lambda>x. fst x > 0) (charges_of c))
           \<and> (\<forall>j i. j < length (filter (\<lambda>x. fst x > 0) (charges_of c)) \<and> i < nat n \<longrightarrow>
                 lines ! (j * nat n + i)
                   = od (scaled_electric_field c)
                       (seed (snd (filter (\<lambda>x. fst x > 0) (charges_of c) ! j)) r
                          ((2 * real (i + 1) + 1) * pi / real_of_int n))
                       lambdas)"
proof -
  let ?line = "\<lambda>lambdas xy i. od (scaled_electric_field c)
                 (seed xy r ((2 * real (i + 1) + 1) * pi / real_of_int n)) lambdas"
  obtain lambdas where lam: "np_linspace 0 lambda_max points = Inr lambdas"
    and fl: "field_lines od c n r lambda_max points
               = Inr (concat (map (\<lambda>xy. map (?line lambdas xy) [0..<nat n]) (sources c)))"
    using field_lines_structure [OF assms] by blast
  let ?ls = "map (\<lambda>xy. map (?line lambdas xy) [0..<nat n]) (sources c)"
  let ?pos = "filter (\<lambda>x. fst x > 0) (charges_of c)"
  have uni: "\<forall>l \<in> set ?ls. length l = nat n" by auto
  have len: "length ?ls = length ?pos" by (simp add: sources_def)
  have 1: "length (concat ?ls) = nat n * length ?pos"
    using length_concat_uniform [OF uni] len by simp
  have 2: "concat ?ls ! (j * nat n + i) = ?line lambdas (snd (?pos ! j)) i"
    if "j < length ?pos \<and> i < nat n" for j i
  proof -
    have "concat ?ls ! (j * nat n + i) = ?ls ! j ! i"
      using nth_concat_uniform [OF uni] that len by simp
    then show ?thesis using that by (simp add: sources_def)
  qed
  show ?thesis using fl lam 1 2 by blast
qed

lemma contract_length: "odeint_contract od \<Longrightarrow> length (od f y0 ts) = length ts"
  unfolding odeint_contract_def by blast

lemma contract_hd: "odeint_contract od \<Longrightarrow> ts \<noteq> [] \<Longrightarrow> hd (od f y0 ts) = y0"
  unfolding odeint_contract_def by blast

lemma contract_single:
  assumes "odeint_contract od"
  shows "od f y0 [t] = [y0]"
proof -
  have "length (od f y0 [t]) = 1" "hd (od f y0 [t]) = y0"
    using contract_length [OF assms, of f y0 "[t]"] contract_hd [OF assms, of "[t]" f y0]
    by simp_all
  then show ?thesis by (cases "od f y0 [t]") simp_all
qed

lemma sources_example_one: "sources example_one = [(0, 0)]"
  by (simp add: sources_def charges_of_example_one)

text \<open>
  Claim C4. With an integrator that returns one row per parameter sample, the first
  being the start point, every line \<open>field_lines\<close> returns has \<open>points\<close> rows and starts at
  the position of its charge plus \<open>start_radius\<close> times \<open>(cos \<theta>, sin \<theta>)\<close> for its angle
  \<open>\<theta>\<close>. For the single charge \<open>(+1, (0, 0))\<close> with 4 lines, radius 1, \<open>lambda_max = 0\<close>
  and one point per line, the result is 4 lines, each holding its start point only.
\<close>

theorem field_lines_points_and_seed:
  assumes "odeint_contract od"
  shows "(shape_inv c \<and> 0 < n \<and> 0 < points \<longrightarrow>
           (\<exists>lines. field_lines od c n r lambda_max points = Inr lines
              \<and> (\<forall>l \<in> set lines. length l = nat points)
              \<and> (\<forall>j i. j < length (sources c) \<and> i < nat n \<longrightarrow>
                    hd (lines ! (j * nat n + i))
                      = seed (sources c ! j) r ((2 * real (i + 1) + 1) * pi / real_of_int n))))
       \<and> field_lines od example_one 4 1 0 1
           = Inr [[seed (0, 0) 1 (3 * pi / 4)], [seed (0, 0) 1 (5 * pi / 4)],
                  [seed (0, 0) 1 (7 * pi / 4)], [seed (0, 0) 1 (9 * pi / 4)]]"
proof (intro conjI impI)
  assume a: "shape_inv c \<and> 0 < n \<and> 0 < points"
  let ?line = "\<lambda>lambdas xy i. od (scaled_electric_field c)
                 (seed xy r ((2 * real (i + 1) + 1) * pi / real_of_int n)) lambdas"
  obtain lambdas where lam: "length lambdas = nat points"
    and fl: "field_lines od c n r lambda_max points
               = Inr (concat (map (\<lambda>xy. map (?line lambdas xy) [0..<nat n]) (sources c)))"
    using field_lines_structure [of c n points] a by force
  let ?ls = "map (\<lambda>xy. map (?line lambdas xy) [0..<nat n]) (sources c)"
  have ne: "lambdas \<noteq> []" using lam a by auto
  have uni: "\<forall>l \<in> set ?ls. length l = nat n" by auto
  have 1: "\<forall>l \<in> set (concat ?ls). length l = nat points"
    using lam by (auto simp add: contract_length [OF assms])
  have 2: "hd (concat ?ls ! (j * nat n + i))
             = seed (sources c ! j) r ((2 * real (i + 1) + 1) * pi / real_of_int n)"
    if "j < length (sources c) \<and> i < nat n" for j i
  proof -
    have "concat ?ls ! (j * nat n + i) = ?ls ! j ! i"
      using nth_concat_uniform [OF uni] that by simp
    then have "concat ?ls ! (j * nat n + i) = ?line lambdas (sources c ! j) i"
      using that by simp
    then show ?thesis using ne by (simp add: contract_hd [OF assms])
  qed
  show "\<exists>lines. field_lines od c n r lambda_max points = Inr lines
          \<and> (\<forall>l \<in> set lines. length l = nat points)
          \<and> (\<forall>j i. j < length (sources c) \<and> i < nat n \<longrightarrow>
                hd (lines ! (j * nat n + i))
                  = seed (sources c ! j) r ((2 * real (i + 1) + 1) * pi / real_of_int n))"
    using fl 1 2 by blast
next
  have lam: "np_linspace 0 0 1 = Inr [0]" by (simp add: np_linspace_def)
  obtain lambdas where l2: "np_linspace 0 0 1 = Inr lambdas"
    and fl: "field_lines od example_one 4 1 0 1
               = Inr (concat (map (\<lambda>xy. map (\<lambda>i. od (scaled_electric_field example_one)
                                  (seed xy 1 ((2 * real (i + 1) + 1) * pi / real_of_int 4)) lambdas)
                                [0..<nat 4])
                        (sources example_one)))"
    using field_lines_structure [OF inv_example_one, of 4 1 0 od 1] by auto
  have "lambdas = [0]" using lam l2 by simp
  moreover have "[0..<nat 4] = [0, 1, 2, 3]" by (simp add: upt_rec)
  ultimately show "field_lines od example_one 4 1 0 1
           = Inr [[seed (0, 0) 1 (3 * pi / 4)], [seed (0, 0) 1 (5 * pi / 4)],
                  [seed (0, 0) 1 (7 * pi / 4)], [seed (0, 0) 1 (9 * pi / 4)]]"
    using fl by (simp add: sources_example_one contract_single [OF assms])
qed


lemma sources_example_three: "sources example_three = [(1, 0), (0, 1)]"
  by (simp add: sources_def charges_of_example_three)

lemma contract_hold: "odeint_contract (\<lambda>f y0 ts. map (\<lambda>t. y0) ts)"
  unfolding odeint_contract_def by (simp add: hd_map)

theorem field_lines_count_order_witness:
  "\<exists>lines. field_lines (\<lambda>f y0 ts. map (\<lambda>t. y0) ts) example_three 2 (1 / 5) 10 2 = Inr lines
      \<and> length lines = 4
      \<and> lines ! 0 = [seed (1, 0) (1 / 5) (3 * pi / 2), seed (1, 0) (1 / 5) (3 * pi / 2)]
      \<and> lines ! 3 = [seed (0, 1) (1 / 5) (5 * pi / 2), seed (0, 1) (1 / 5) (5 * pi / 2)]"
proof -
  let ?od = "\<lambda>(f :: point \<Rightarrow> real \<Rightarrow> point option) (y0 :: point) (ts :: real list). map (\<lambda>t. y0) ts"
  let ?pos = "filter (\<lambda>x. fst x > 0) (charges_of example_three)"
  have pos: "?pos = [(1, (1, 0)), (2, (0, 1))]"
    by (simp add: charges_of_example_three)
  obtain lines lambdas where
    fl: "field_lines ?od example_three 2 (1 / 5) 10 2 = Inr lines"
    and lam: "np_linspace 0 10 2 = Inr lambdas"
    and len: "length lines = nat 2 * length ?pos"
    and nth: "\<forall>j i. j < length ?pos \<and> i < nat 2 \<longrightarrow>
                 lines ! (j * nat 2 + i)
                   = ?od (scaled_electric_field example_three)
                       (seed (snd (?pos ! j)) (1 / 5)
                          ((2 * real (i + 1) + 1) * pi / real_of_int 2))
                       lambdas"
    using field_lines_count_order [OF inv_example_three, of 2 2 ?od "1 / 5" 10] by auto
  have "length lambdas = 2"
    using lam by (auto simp add: np_linspace_def Let_def)
  then obtain t0 t1 where l: "lambdas = [t0, t1]"
    by (cases lambdas; cases "tl lambdas") auto
  have 0: "lines ! 0 = [seed (1, 0) (1 / 5) (3 * pi / 2), seed (1, 0) (1 / 5) (3 * pi / 2)]"
    using nth [rule_format, of 0 0] by (simp add: pos l)
  have 3: "lines ! 3 = [seed (0, 1) (1 / 5) (5 * pi / 2), seed (0, 1) (1 / 5) (5 * pi / 2)]"
    using nth [rule_format, of 1 1] by (simp add: pos l)
  have "length lines = 4" using len by (simp add: pos)
  then show ?thesis using fl 0 3 by simp
qed

theorem field_lines_points_and_seed_witness:
  "odeint_contract (\<lambda>f y0 ts. map (\<lambda>t. y0) ts)
   \<and> field_lines (\<lambda>f y0 ts. map (\<lambda>t. y0) ts) example_one 4 1 0 1
       = Inr [[seed (0, 0) 1 (3 * pi / 4)], [seed (0, 0) 1 (5 * pi / 4)],
              [seed (0, 0) 1 (7 * pi / 4)], [seed (0, 0) 1 (9 * pi / 4)]]
   \<and> (\<exists>lines. field_lines (\<lambda>f y0 ts. map (\<lambda>t. y0) ts) example_three 2 (1 / 5) 10 3 = Inr lines
         \<and> list_all (\<lambda>l. length l = 3) lines
         \<and> hd (lines ! 2) = seed (0, 1) (1 / 5) (3 * pi / 2))"
proof -
  let ?od = "\<lambda>(f :: point \<Rightarrow> real \<Rightarrow> point option) (y0 :: point) (ts :: real list). map (\<lambda>t. y0) ts"
  note th = field_lines_points_and_seed [OF contract_hold, of example_three 2 3 "1 / 5" 10]
  obtain lines where
    fl: "field_lines ?od example_three 2 (1 / 5) 10 3 = Inr lines"
    and len: "\<forall>l \<in> set lines. length l = nat 3"
    and nth: "\<forall>j i. j < length (sources example_three) \<and> i < nat 2 \<longrightarrow>
                hd (lines ! (j * nat 2 + i))
                  = seed (sources example_three ! j) (1 / 5)
                      ((2 * real (i + 1) + 1) * pi / real_of_int 2)"
    using th inv_example_three by auto
  have 1: "list_all (\<lambda>l. length l = 3) lines"
    using len by (simp add: list_all_iff)
  have 2: "hd (lines ! 2) = seed (0, 1) (1 / 5) (3 * pi / 2)"
    using nth [rule_format, of 1 0] by (simp add: sources_example_three)
  show ?thesis using th contract_hold fl 1 2 by simp
qed

end
